theory Spec2Isabelle
  imports Main "HOL-Library.Word" "HOL-Library.Signed_Division"
begin

unbundle bit_operations_syntax

section \<open>The subsequence counter with its own hash table\<close>

text \<open>
  The program reads a DNA text, replaces the letters A, C, G, T by the bytes 0, 1, 2, 3,
  packs every window of a fixed length into a \<open>uint64\<close> key and counts the keys in a hash
  table of \<open>1 << 18\<close> buckets with collision chains.

  Go's types are modelled as follows: \<open>byte\<close> is an 8-bit word, \<open>uint64\<close> a 64-bit word.
  \<open>int\<close> is the 64-bit signed integer of the usual platforms: the conversion
  \<open>int(key)\<close> of \<open>hash\<close> is the two's complement reading \<open>sint\<close> of the key, and Go's
  \<open>%\<close> truncates towards zero (\<open>smod\<close>). Lengths and loop indices are bounded by the
  length of a slice and are integers here. The counter of an entry starts at 1 and grows by
  one per call of \<open>inc\<close>; it is an integer here, which is exact for fewer than \<open>2^63\<close>
  calls (\<open>count\<close> makes one call per window of its slice).
\<close>

type_synonym byte = "8 word"
type_synonym uint64 = "64 word"

datatype panic = IndexOutOfRange | SliceBoundsOutOfRange

subsection \<open>toNum\<close>

text \<open>
  \<open>strings.NewReplacer("A", string(0), "C", string(1), "G", string(2), "T", string(3))\<close>:
  every old and new string is one byte long, so \<open>Replace\<close> maps the text byte by byte and
  leaves every other byte as it is.
\<close>

definition toNum_byte :: "byte \<Rightarrow> byte" where
  "toNum_byte b =
     (if b = 0x41 then 0
      else if b = 0x43 then 1
      else if b = 0x47 then 2
      else if b = 0x54 then 3
      else b)"

definition toNum_Replace :: "byte list \<Rightarrow> byte list" where
  "toNum_Replace s = map toNum_byte s"

text \<open>
  \<open>read\<close> appends the replaced text of every line the scanner delivers; the lines of
  standard input are its argument here.
\<close>

definition read :: "byte list list \<Rightarrow> byte list" where
  "read lines = foldl (\<lambda>buf line. buf @ toNum_Replace line) [] lines"

subsection \<open>hash\<close>

text \<open>
  \<open>const hashSize = 1 << 18\<close> and \<open>int(key) % hashSize\<close>: the remainder has the sign of
  \<open>int(key)\<close>.
\<close>

definition hashSize :: int where
  "hashSize = 2 ^ 18"

definition hash :: "uint64 \<Rightarrow> int" where
  "hash key = sint key smod hashSize"

subsection \<open>entry and hashCounter\<close>

text \<open>
  A chain \<open>*entry\<close> is the list of its entries from the head on, \<open>nil\<close> the empty list;
  the field \<open>next\<close> is the tail of the list, and the field \<open>value\<close> is called \<open>val\<close>.
  Every entry is allocated by \<open>inc\<close> and linked into one chain only, so no two chains
  share an entry. The array \<open>[hashSize]*entry\<close> is a function from the index to the chain
  of that slot; an index outside \<open>0 .. hashSize - 1\<close> is the run-time panic of Go, checked
  where the source indexes the array (in \<open>inc\<close> before anything is written).
\<close>

record entry =
  key :: uint64
  val :: int

record hashCounter =
  entries :: "int \<Rightarrow> entry list"

definition empty_counter :: hashCounter where
  "empty_counter = \<lparr>entries = (\<lambda>_. [])\<rparr>"

definition in_range :: "int \<Rightarrow> bool" where
  "in_range h \<longleftrightarrow> 0 \<le> h \<and> h < hashSize"

text \<open>The loop of \<open>get\<close> over one chain.\<close>

fun get_chain :: "entry list \<Rightarrow> uint64 \<Rightarrow> int" where
  "get_chain [] k = 0"
| "get_chain (e # es) k = (if key e = k then val e else get_chain es k)"

definition get :: "hashCounter \<Rightarrow> uint64 \<Rightarrow> panic + int" where
  "get hc k =
     (let h = hash k in
      if in_range h then Inr (get_chain (entries hc h) k) else Inl IndexOutOfRange)"

text \<open>
  The loop of \<open>inc\<close> over one chain: \<open>Some\<close> of the chain with the counter of the first
  entry for \<open>k\<close> incremented (the \<open>return\<close> inside the loop), \<open>None\<close> when the loop ends
  without finding one.
\<close>

fun inc_chain :: "entry list \<Rightarrow> uint64 \<Rightarrow> entry list option" where
  "inc_chain [] k = None"
| "inc_chain (e # es) k =
     (if key e = k then Some (e\<lparr>val := val e + 1\<rparr> # es)
      else map_option ((#) e) (inc_chain es k))"

definition inc :: "hashCounter \<Rightarrow> uint64 \<Rightarrow> panic + hashCounter" where
  "inc hc k =
     (let h = hash k in
      if \<not> in_range h then Inl IndexOutOfRange
      else
        let p = entries hc h in
        case inc_chain p k of
          Some p' \<Rightarrow> Inr (hc\<lparr>entries := (entries hc)(h := p')\<rparr>)
        | None \<Rightarrow>
            let e = \<lparr>key = k, val = 1\<rparr> in
            if p = [] then Inr (hc\<lparr>entries := (entries hc)(h := [e])\<rparr>)
            else Inr (hc\<lparr>entries := (entries hc)(h := e # p)\<rparr>))"

subsection \<open>encode and count\<close>

definition encode :: "byte list \<Rightarrow> uint64" where
  "encode sequence = foldl (\<lambda>num char. push_bit 2 num OR ucast char) 0 sequence"

text \<open>
  The slice expression \<open>s[lo:hi]\<close>. Go checks \<open>0 \<le> lo \<le> hi \<le> cap(s)\<close>; in \<open>count\<close>
  the loop condition keeps \<open>hi\<close> within the length, so the capacity never decides.
\<close>

definition slice_expr :: "'a list \<Rightarrow> int \<Rightarrow> int \<Rightarrow> panic + 'a list" where
  "slice_expr s lo hi =
     (if 0 \<le> lo \<and> lo \<le> hi \<and> hi \<le> int (length s)
      then Inr (take (nat (hi - lo)) (drop (nat lo) s))
      else Inl SliceBoundsOutOfRange)"

text \<open>
  The loop of \<open>count\<close>, with the index \<open>i\<close> and the table as its state. The loop condition
  and \<open>i + length\<close> are computed without wrap-around, as Go computes them for every window
  length of absolute value below \<open>2^62\<close>.
\<close>

function count_loop :: "byte list \<Rightarrow> int \<Rightarrow> int \<Rightarrow> hashCounter \<Rightarrow> panic + hashCounter" where
  "count_loop dna len i counts =
     (if i < int (length dna) - len + 1 then
        (case slice_expr dna i (i + len) of
           Inl e \<Rightarrow> Inl e
         | Inr w \<Rightarrow>
             (case inc counts (encode w) of
                Inl e \<Rightarrow> Inl e
              | Inr counts' \<Rightarrow> count_loop dna len (i + 1) counts'))
      else Inr counts)"
  by pat_completeness auto
termination
  by (relation "measure (\<lambda>(dna, len, i, counts). nat (int (length dna) - len + 1 - i))") auto

declare count_loop.simps [simp del]

definition count :: "byte list \<Rightarrow> int \<Rightarrow> panic + hashCounter" where
  "count dna len = count_loop dna len 0 empty_counter"

text \<open>
  A sequence of calls of \<open>inc\<close> on one table, as \<open>count\<close> makes them: the first panic
  ends the run.
\<close>

fun incs :: "hashCounter \<Rightarrow> uint64 list \<Rightarrow> panic + hashCounter" where
  "incs hc [] = Inr hc"
| "incs hc (k # ks) = (case inc hc k of Inl e \<Rightarrow> Inl e | Inr hc' \<Rightarrow> incs hc' ks)"

subsection \<open>Notions of the specification\<close>

text \<open>
  The windows of length \<open>L\<close> of a buffer, by starting position, and the brute-force count
  of the starting positions at which \<open>w\<close> occurs in \<open>s\<close>.
\<close>

definition windows :: "'a list \<Rightarrow> nat \<Rightarrow> 'a list list" where
  "windows s L = map (\<lambda>i. take L (drop i s)) [0..<length s + 1 - L]"

definition occurrences :: "'a list \<Rightarrow> 'a list \<Rightarrow> nat" where
  "occurrences w s =
     length (filter (\<lambda>i. take (length w) (drop i s) = w) [0..<length s + 1 - length w])"

text \<open>
  The unsigned integer whose base-4 digits are the codes, the most significant first.
\<close>

definition base4_value :: "byte list \<Rightarrow> nat" where
  "base4_value cs = (\<Sum>j<length cs. unat (cs ! j) * 4 ^ (length cs - 1 - j))"

text \<open>
  The incremental key packer in the words of the specification: shift the previous key
  left by 2 bits, OR in the new code, and mask to keep exactly \<open>2 * L\<close> bits. The source has
  no such function (\<open>count\<close> calls \<open>encode\<close> on every window); the packer is compared with
  \<open>encode\<close> below. \<open>incremental_keys\<close> is the key sequence of a scan that folds the first
  window from zero and obtains every later key from its predecessor.
\<close>

definition incremental_key :: "nat \<Rightarrow> uint64 \<Rightarrow> byte \<Rightarrow> uint64" where
  "incremental_key L prev c = (push_bit 2 prev OR ucast c) AND mask (2 * L)"

fun incremental_scan :: "nat \<Rightarrow> uint64 \<Rightarrow> byte list \<Rightarrow> uint64 list" where
  "incremental_scan L prev [] = []"
| "incremental_scan L prev (c # cs) =
     (let k = incremental_key L prev c in k # incremental_scan L k cs)"

definition incremental_keys :: "byte list \<Rightarrow> nat \<Rightarrow> uint64 list" where
  "incremental_keys dna L =
     (if length dna < L then []
      else let k0 = encode (take L dna) in k0 # incremental_scan L k0 (drop L dna))"

subsection \<open>Invariants of the table\<close>

text \<open>
  \<open>bucket_ok\<close>: every entry sits in the slot of its key's hash. \<open>table_inv ks\<close>: the table
  is what the calls \<open>inc\<close> of the keys \<open>ks\<close> leave.
\<close>

definition bucket_ok :: "hashCounter \<Rightarrow> bool" where
  "bucket_ok hc \<longleftrightarrow> (\<forall>h. \<forall>e\<in>set (entries hc h). hash (key e) = h)"

definition table_inv :: "uint64 list \<Rightarrow> hashCounter \<Rightarrow> bool" where
  "table_inv ks hc \<longleftrightarrow>
     bucket_ok hc \<and>
     (\<forall>h. distinct (map key (entries hc h))) \<and>
     (\<forall>h. \<forall>e\<in>set (entries hc h). key e \<in> set ks) \<and>
     (\<forall>k. get_chain (entries hc (hash k)) k = int (count_list ks k))"

section \<open>Properties of encode\<close>

lemma encode_Nil: "encode [] = 0"
  by (simp add: encode_def)

lemma encode_snoc: "encode (cs @ [c]) = push_bit 2 (encode cs) OR ucast c"
  by (simp add: encode_def)

lemma code_bits:
  fixes c :: byte
  assumes "c \<le> 3" shows "bit c n \<longrightarrow> n < 2"
proof -
  from assms have "c < 2 ^ 2" by (simp add: word_le_nat_alt word_less_nat_alt)
  then have "take_bit 2 c = c"
    by (simp add: less_mask_eq take_bit_eq_mask)
  then have "bit c n = bit (take_bit 2 c) n" by simp
  then show ?thesis by (auto simp add: bit_take_bit_iff)
qed

lemma shift_or_code:
  fixes num :: uint64 and c :: byte
  assumes "c \<le> 3"
  shows "push_bit 2 num OR ucast c = 4 * num + ucast c"
proof -
  have "push_bit 2 num + ucast c = push_bit 2 num OR (ucast c :: uint64)"
  proof (rule disjunctive_add)
    fix n
    show "\<not> bit (push_bit 2 num) n \<or> \<not> bit (ucast c :: uint64) n"
      using code_bits [OF assms, of n] by (auto simp add: bit_push_bit_iff bit_ucast_iff)
  qed
  then show ?thesis by (simp add: push_bit_eq_mult mult.commute)
qed

lemma base4_value_Nil: "base4_value [] = 0"
  by (simp add: base4_value_def)

lemma base4_value_snoc: "base4_value (cs @ [c]) = 4 * base4_value cs + unat c"
proof -
  have "(\<Sum>j<length cs. unat ((cs @ [c]) ! j) * 4 ^ (length cs - j))
      = (\<Sum>j<length cs. 4 * (unat (cs ! j) * 4 ^ (length cs - 1 - j)))"
  proof (rule sum.cong)
    fix j assume "j \<in> {..<length cs}"
    then have j: "j < length cs" by simp
    then have "length cs - j = Suc (length cs - 1 - j)" by simp
    with j show "unat ((cs @ [c]) ! j) * 4 ^ (length cs - j)
                = 4 * (unat (cs ! j) * 4 ^ (length cs - 1 - j))"
      by (simp add: nth_append)
  qed simp
  then show ?thesis
    by (simp add: base4_value_def sum_distrib_left)
qed

lemma unat_code: fixes c :: byte shows "c \<le> 3 \<Longrightarrow> unat c \<le> 3"
  by (simp add: word_le_nat_alt)

lemma base4_value_less:
  "\<forall>c\<in>set cs. c \<le> 3 \<Longrightarrow> base4_value cs < 4 ^ length cs"
proof (induction cs rule: rev_induct)
  case Nil
  show ?case by (simp add: base4_value_Nil)
next
  case (snoc c cs)
  then have "base4_value cs < 4 ^ length cs" and "unat c \<le> 3"
    by (simp_all add: unat_code)
  then show ?case by (simp add: base4_value_snoc)
qed

lemma encode_word_of_base4:
  "\<forall>c\<in>set cs. c \<le> 3 \<Longrightarrow> encode cs = word_of_nat (base4_value cs)"
proof (induction cs rule: rev_induct)
  case Nil
  show ?case by (simp add: base4_value_Nil encode_Nil)
next
  case (snoc c cs)
  then have "encode cs = word_of_nat (base4_value cs)" and c: "c \<le> 3" by simp_all
  then show ?case
    by (simp add: encode_snoc shift_or_code [OF c] base4_value_snoc)
qed

lemma unat_encode:
  "\<forall>c\<in>set cs. c \<le> 3 \<Longrightarrow> unat (encode cs) = base4_value cs mod 2 ^ 64"
  by (simp add: encode_word_of_base4 unat_of_nat)

lemma unat_encode_short:
  assumes "\<forall>c\<in>set cs. c \<le> 3" and "length cs \<le> 32"
  shows "unat (encode cs) = base4_value cs"
proof -
  have "base4_value cs < 4 ^ length cs" by (rule base4_value_less [OF assms(1)])
  also have "(4::nat) ^ length cs \<le> 4 ^ 32"
    by (rule power_increasing) (use assms(2) in simp_all)
  finally have "base4_value cs < 2 ^ 64" by simp
  then show ?thesis by (simp add: unat_encode [OF assms(1)])
qed

lemma base4_value_inject:
  "length cs = length cs' \<Longrightarrow> \<forall>c\<in>set cs. c \<le> 3 \<Longrightarrow> \<forall>c\<in>set cs'. c \<le> 3 \<Longrightarrow>
   base4_value cs = base4_value cs' \<Longrightarrow> cs = cs'"
proof (induction cs arbitrary: cs' rule: rev_induct)
  case Nil
  then show ?case by simp
next
  case (snoc c cs)
  from snoc.prems(1) obtain ds d where cs': "cs' = ds @ [d]"
    by (cases cs' rule: rev_cases) simp_all
  from snoc.prems cs' have len: "length cs = length ds" by simp
  from snoc.prems cs' have c: "unat c \<le> 3" and d: "unat d \<le> 3" by (simp_all add: unat_code)
  from snoc.prems(4) cs' have "4 * base4_value cs + unat c = 4 * base4_value ds + unat d"
    by (simp add: base4_value_snoc)
  with c d have "base4_value cs = base4_value ds" and "unat c = unat d" by arith+
  then have "base4_value cs = base4_value ds" and "c = d" by (simp_all add: word_unat_eq_iff)
  moreover from snoc.prems cs' have "\<forall>c\<in>set cs. c \<le> 3" "\<forall>c\<in>set ds. c \<le> 3" by simp_all
  ultimately have "cs = ds" and "c = d" using snoc.IH [OF len] by simp_all
  with cs' show ?case by simp
qed

lemma encode_append: "encode (a @ b) = push_bit (2 * length b) (encode a) OR encode b"
proof (induction b rule: rev_induct)
  case Nil
  show ?case by (simp add: encode_Nil)
next
  case (snoc c b)
  have "encode (a @ b @ [c]) = push_bit 2 (encode (a @ b)) OR ucast c"
    using encode_snoc [of "a @ b" c] by simp
  also have "\<dots> = push_bit (2 * length (b @ [c])) (encode a) OR encode (b @ [c])"
    by (simp add: snoc.IH encode_snoc push_bit_or push_bit_push_bit or.assoc add.commute)
  finally show ?case by simp
qed

lemma encode_last_32:
  assumes "32 \<le> length w"
  shows "encode w = encode (drop (length w - 32) w)"
proof -
  have "w = take (length w - 32) w @ drop (length w - 32) w" by simp
  then have "encode w = push_bit (2 * length (drop (length w - 32) w)) (encode (take (length w - 32) w))
               OR encode (drop (length w - 32) w)"
    by (metis encode_append)
  moreover have "2 * length (drop (length w - 32) w) = 64" using assms by simp
  ultimately show ?thesis by (simp add: push_bit_eq_0_iff)
qed

section \<open>Properties of hash\<close>

lemma smod_examples: "(7::int) smod 4 = 3" "(- 7::int) smod 4 = - 3"
  by (simp_all add: smod_int_alt_def)

lemma sint_small:
  fixes k :: uint64
  assumes "unat k < 2 ^ 63"
  shows "sint k = int (unat k)"
proof -
  from assms have "int (unat k) < int (2 ^ 63)" by (simp only: of_nat_less_iff)
  then have "uint k < 2 ^ 63" by simp
  moreover have "- (2 ^ 63) \<le> uint k"
    by (rule order_trans [of _ 0]) simp_all
  ultimately have "signed_take_bit 63 (uint k) = uint k"
    by (simp add: signed_take_bit_int_eq_self)
  then show ?thesis by (simp add: sint_uint)
qed

lemma smod_nonneg:
  fixes a b :: int
  shows "0 \<le> a \<Longrightarrow> 0 \<le> b \<Longrightarrow> a smod b = a mod b"
  by (cases "a = 0") (simp_all add: smod_int_alt_def)

lemma hash_small:
  assumes "unat k < 2 ^ 63"
  shows "hash k = int (unat k mod 2 ^ 18)"
  by (simp add: hash_def hashSize_def sint_small [OF assms] smod_nonneg zmod_int)

lemma hash_small_low_bits:
  assumes "unat k < 2 ^ 63"
  shows "hash k = uint (k AND mask 18)"
proof -
  have "uint (k AND mask 18) = uint k mod 2 ^ 18"
    by (simp add: unsigned_take_bit_eq take_bit_eq_mod uint_mod flip: take_bit_eq_mask)
  then show ?thesis
    by (simp add: hash_small [OF assms] zmod_int)
qed

lemma hash_small_in_range:
  assumes "unat k < 2 ^ 63"
  shows "in_range (hash k)"
  by (simp add: hash_small [OF assms] in_range_def hashSize_def)

lemma hash_max_key: "hash 0xFFFFFFFFFFFFFFFF = - 1"
  by (simp add: hash_def hashSize_def smod_int_alt_def)

lemma sint_large:
  fixes k :: uint64
  assumes "2 ^ 63 \<le> unat k"
  shows "sint k = int (unat k) - 2 ^ 64"
proof -
  from assms have "int (2 ^ 63) \<le> int (unat k)" by (simp only: of_nat_le_iff)
  then have ge: "2 ^ 63 \<le> uint k" by simp
  have lt: "uint k < 2 ^ 64" using uint_lt2p [of k] by simp
  from ge lt have "uint k div 2 ^ 63 = 1" by simp
  then have "bit (uint k) 63" by (simp add: bit_iff_odd)
  moreover have "take_bit 64 (uint k) = uint k"
    using lt by (simp add: take_bit_int_eq_self)
  ultimately have "signed_take_bit 63 (uint k) = uint k - 2 ^ 64"
    by (simp add: signed_take_bit_eq_take_bit_minus)
  then show ?thesis by (simp add: sint_uint)
qed

lemma hash_large:
  assumes "2 ^ 63 \<le> unat k"
  shows "hash k = - int ((2 ^ 64 - unat k) mod 2 ^ 18)"
proof -
  have lt: "unat k < 2 ^ 64" using unsigned_less [of k] by simp
  then have "int (unat k) < int (2 ^ 64)" by (simp only: of_nat_less_iff)
  then have neg: "int (unat k) - 2 ^ 64 < 0" by simp
  then have "\<bar>int (unat k) - 2 ^ 64\<bar> = 2 ^ 64 - int (unat k)" by linarith
  also have "\<dots> = int (2 ^ 64 - unat k)" using lt by (simp add: of_nat_diff)
  finally have "\<bar>int (unat k) - 2 ^ 64\<bar> = int (2 ^ 64 - unat k)" .
  note abs = this
  from neg have sgn: "sgn (int (unat k) - 2 ^ 64) = - 1" by simp
  have "hash k = sgn (int (unat k) - 2 ^ 64) * (\<bar>int (unat k) - 2 ^ 64\<bar> mod \<bar>2 ^ 18\<bar>)"
    by (simp only: hash_def hashSize_def sint_large [OF assms] smod_int_alt_def)
  also have "\<dots> = - (int (2 ^ 64 - unat k) mod 2 ^ 18)"
    by (simp only: sgn abs) simp
  finally show ?thesis by (simp add: zmod_int)
qed

lemma hash_large_in_range:
  assumes "2 ^ 63 \<le> unat k"
  shows "in_range (hash k) \<longleftrightarrow> unat k mod 2 ^ 18 = 0"
proof -
  have lt: "unat k < 2 ^ 64" using unsigned_less [of k] by simp
  have "(2 ^ 64 - unat k) mod 2 ^ 18 = 0 \<longleftrightarrow> unat k mod 2 ^ 18 = 0"
  proof -
    define d where "d = 2 ^ 64 - unat k"
    have sum: "unat k + d = 2 ^ 64" using lt by (simp add: d_def)
    have "(2::nat) ^ 18 dvd 2 ^ 64" by (rule le_imp_power_dvd) simp
    then have all: "(2::nat) ^ 18 dvd unat k + d" by (simp only: sum)
    have "2 ^ 18 dvd d \<longleftrightarrow> 2 ^ 18 dvd unat k"
    proof
      assume "2 ^ 18 dvd d"
      from dvd_add_left_iff [OF this, of "unat k"] all show "2 ^ 18 dvd unat k" by simp
    next
      assume "2 ^ 18 dvd unat k"
      from dvd_add_right_iff [OF this, of d] all show "2 ^ 18 dvd d" by simp
    qed
    then have "2 ^ 18 dvd 2 ^ 64 - unat k \<longleftrightarrow> 2 ^ 18 dvd unat k" by (simp only: d_def)
    then show ?thesis by (simp only: dvd_eq_mod_eq_0)
  qed
  then show ?thesis
    by (simp add: hash_large [OF assms] in_range_def hashSize_def)
qed

section \<open>Properties of the counter table\<close>

lemma inc_chain_None: "inc_chain es k = None \<longleftrightarrow> k \<notin> key ` set es"
  by (induction es) auto

lemma inc_chain_keys: "inc_chain es k = Some es' \<Longrightarrow> map key es' = map key es"
  by (induction es arbitrary: es') (auto split: if_splits)

lemma inc_chain_get:
  "inc_chain es k = Some es' \<Longrightarrow>
   get_chain es' k' = (if k' = k then get_chain es k + 1 else get_chain es k')"
  by (induction es arbitrary: es') (auto split: if_splits)

lemma inc_chain_others:
  "inc_chain es k = Some es' \<Longrightarrow>
   filter (\<lambda>e. key e \<noteq> k) es' = filter (\<lambda>e. key e \<noteq> k) es"
  by (induction es arbitrary: es') (auto split: if_splits)

lemma get_chain_absent: "k \<notin> key ` set es \<Longrightarrow> get_chain es k = 0"
  by (induction es) auto

lemma get_chain_distinct:
  "distinct (map key es) \<Longrightarrow> e \<in> set es \<Longrightarrow> get_chain es (key e) = val e"
  by (induction es) auto

lemma inc_Inl: "inc hc k = Inl e \<longleftrightarrow> \<not> in_range (hash k) \<and> e = IndexOutOfRange"
  by (auto simp add: inc_def Let_def split: option.splits)

lemma inc_Inr:
  "inc hc k = Inr hc' \<longleftrightarrow>
     in_range (hash k) \<and>
     hc' = hc\<lparr>entries := (entries hc)
             (hash k := case inc_chain (entries hc (hash k)) k of
                          Some p' \<Rightarrow> p'
                        | None \<Rightarrow> \<lparr>key = k, val = 1\<rparr> # entries hc (hash k))\<rparr>"
  by (auto simp add: inc_def Let_def split: option.splits)

lemma inc_other_bucket:
  "inc hc k = Inr hc' \<Longrightarrow> h \<noteq> hash k \<Longrightarrow> entries hc' h = entries hc h"
  by (simp add: inc_Inr)

lemma inc_same_bucket_found:
  "inc hc k = Inr hc' \<Longrightarrow> inc_chain (entries hc (hash k)) k = Some p' \<Longrightarrow>
   entries hc' (hash k) = p'"
  by (simp add: inc_Inr)

lemma inc_same_bucket_new:
  "inc hc k = Inr hc' \<Longrightarrow> inc_chain (entries hc (hash k)) k = None \<Longrightarrow>
   entries hc' (hash k) = \<lparr>key = k, val = 1\<rparr> # entries hc (hash k)"
  by (simp add: inc_Inr)

lemma inc_get_chain:
  assumes "inc hc k = Inr hc'"
  shows "get_chain (entries hc' (hash k')) k' =
         (if k' = k then get_chain (entries hc (hash k)) k + 1
          else get_chain (entries hc (hash k')) k')"
proof (cases "hash k' = hash k")
  case False
  then have "k' \<noteq> k" by auto
  with False show ?thesis by (simp add: inc_other_bucket [OF assms])
next
  case same: True
  show ?thesis
  proof (cases "inc_chain (entries hc (hash k)) k")
    case None
    then have "get_chain (entries hc (hash k)) k = 0"
      by (simp add: inc_chain_None get_chain_absent)
    with None same show ?thesis
      by (simp add: inc_same_bucket_new [OF assms])
  next
    case (Some p')
    with same show ?thesis
      by (simp add: inc_same_bucket_found [OF assms] inc_chain_get [OF Some])
  qed
qed

lemma inc_keys:
  assumes "inc hc k = Inr hc'"
  shows "map key (entries hc' h) =
         (if h = hash k \<and> k \<notin> key ` set (entries hc h) then k # map key (entries hc h)
          else map key (entries hc h))"
proof (cases "h = hash k")
  case False
  then show ?thesis by (simp add: inc_other_bucket [OF assms])
next
  case True
  show ?thesis
  proof (cases "inc_chain (entries hc (hash k)) k")
    case None
    with True show ?thesis
      by (simp add: inc_same_bucket_new [OF assms] inc_chain_None [symmetric])
  next
    case (Some p')
    then have "k \<in> key ` set (entries hc (hash k))"
      using inc_chain_None [of "entries hc (hash k)" k] by auto
    with True Some show ?thesis
      by (simp add: inc_same_bucket_found [OF assms] inc_chain_keys [OF Some])
  qed
qed

lemma inc_others:
  assumes "inc hc k = Inr hc'"
  shows "filter (\<lambda>e. key e \<noteq> k) (entries hc' h) = filter (\<lambda>e. key e \<noteq> k) (entries hc h)"
proof (cases "h = hash k")
  case False
  then show ?thesis by (simp add: inc_other_bucket [OF assms])
next
  case True
  show ?thesis
  proof (cases "inc_chain (entries hc (hash k)) k")
    case None
    with True show ?thesis by (simp add: inc_same_bucket_new [OF assms])
  next
    case (Some p')
    with True show ?thesis
      by (simp add: inc_same_bucket_found [OF assms] inc_chain_others [OF Some])
  qed
qed

lemma inc_bucket_ok:
  assumes "inc hc k = Inr hc'" and "bucket_ok hc"
  shows "bucket_ok hc'"
  unfolding bucket_ok_def
proof (intro allI ballI)
  fix h e assume "e \<in> set (entries hc' h)"
  then have "key e \<in> set (map key (entries hc' h))" by simp
  then have "key e \<in> set (map key (entries hc h)) \<or> (h = hash k \<and> key e = k)"
    by (auto simp add: inc_keys [OF assms(1)] split: if_splits)
  then show "hash (key e) = h"
    using assms(2) by (auto simp add: bucket_ok_def)
qed

lemma inc_table_inv:
  assumes "inc hc k = Inr hc'" and "table_inv ks hc"
  shows "table_inv (ks @ [k]) hc'"
  unfolding table_inv_def
proof (intro conjI allI)
  show "bucket_ok hc'"
    using assms by (simp add: inc_bucket_ok table_inv_def)
next
  fix h
  show "distinct (map key (entries hc' h))"
    using assms(2) by (auto simp add: inc_keys [OF assms(1)] table_inv_def)
next
  fix h
  show "\<forall>e\<in>set (entries hc' h). key e \<in> set (ks @ [k])"
  proof
    fix e assume "e \<in> set (entries hc' h)"
    then have "key e \<in> set (map key (entries hc' h))" by simp
    then have "key e \<in> set (map key (entries hc h)) \<or> key e = k"
      by (auto simp add: inc_keys [OF assms(1)] split: if_splits)
    then show "key e \<in> set (ks @ [k])"
      using assms(2) by (auto simp add: table_inv_def)
  qed
next
  fix k'
  show "get_chain (entries hc' (hash k')) k' = int (count_list (ks @ [k]) k')"
    using assms(2) by (simp add: inc_get_chain [OF assms(1)] table_inv_def)
qed

lemma table_inv_empty: "table_inv [] empty_counter"
  by (simp add: table_inv_def bucket_ok_def empty_counter_def)

lemma incs_table_inv:
  "incs hc ks = Inr hc' \<Longrightarrow> table_inv ks0 hc \<Longrightarrow> table_inv (ks0 @ ks) hc'"
proof (induction ks arbitrary: hc ks0)
  case Nil
  then show ?case by simp
next
  case (Cons k ks)
  from Cons.prems(1) obtain hc1 where 1: "inc hc k = Inr hc1" and 2: "incs hc1 ks = Inr hc'"
    by (auto split: sum.splits)
  from inc_table_inv [OF 1 Cons.prems(2)] have "table_inv (ks0 @ [k]) hc1" .
  from Cons.IH [OF 2 this] show ?case by simp
qed

lemma incs_bucket_ok:
  assumes "incs empty_counter ks = Inr hc"
  shows "bucket_ok hc"
  using incs_table_inv [OF assms table_inv_empty] by (simp add: table_inv_def)

lemma incs_Inr_iff: "(\<exists>hc'. incs hc ks = Inr hc') \<longleftrightarrow> (\<forall>k\<in>set ks. in_range (hash k))"
proof (induction ks arbitrary: hc)
  case Nil
  show ?case by simp
next
  case (Cons k ks)
  show ?case
  proof (cases "inc hc k")
    case (Inl e)
    then have "\<not> in_range (hash k)" by (simp add: inc_Inl)
    with Inl show ?thesis by simp
  next
    case (Inr hc1)
    then have "in_range (hash k)" by (simp add: inc_Inr)
    with Inr Cons.IH [of hc1] show ?thesis by simp
  qed
qed

section \<open>The counting pass\<close>

lemma occurrences_card:
  "occurrences w s = card {i. i + length w \<le> length s \<and> take (length w) (drop i s) = w}"
proof -
  have "{i. i + length w \<le> length s \<and> take (length w) (drop i s) = w}
      = set (filter (\<lambda>i. take (length w) (drop i s) = w) [0..<length s + 1 - length w])"
    by auto
  moreover have "distinct (filter (\<lambda>i. take (length w) (drop i s) = w) [0..<length s + 1 - length w])"
    by simp
  ultimately show ?thesis
    by (simp only: occurrences_def distinct_card)
qed

lemma slice_window:
  "i + L \<le> length s \<Longrightarrow> slice_expr s (int i) (int i + int L) = Inr (take L (drop i s))"
  by (simp add: slice_expr_def)

lemma count_loop_incs:
  "count_loop dna (int L) (int i) hc =
   incs hc (map (\<lambda>j. encode (take L (drop j dna))) [i..<length dna + 1 - L])"
proof (induction "length dna + 1 - L - i" arbitrary: i hc)
  case 0
  then have "\<not> int i < int (length dna) - int L + 1" and "[i..<length dna + 1 - L] = []"
    by simp_all
  then show ?case by (subst count_loop.simps [of dna "int L" "int i"]) simp
next
  case (Suc n)
  then have lt: "i < length dna + 1 - L" by simp
  then have guard: "int i < int (length dna) - int L + 1" and inside: "i + L \<le> length dna"
    by simp_all
  from Suc(2) have "n = length dna + 1 - L - Suc i" by simp
  from Suc(1) [OF this] have IH: "\<And>hc. count_loop dna (int L) (int i + 1) hc =
      incs hc (map (\<lambda>j. encode (take L (drop j dna))) [Suc i..<length dna + 1 - L])"
    by (simp add: add.commute)
  have step: "count_loop dna (int L) (int i) hc =
      (case inc hc (encode (take L (drop i dna))) of
         Inl e \<Rightarrow> Inl e
       | Inr hc' \<Rightarrow> count_loop dna (int L) (int i + 1) hc')"
    using guard by (subst count_loop.simps [of dna "int L" "int i"]) (simp add: slice_window [OF inside])
  have upt: "[i..<length dna + 1 - L] = i # [Suc i..<length dna + 1 - L]"
    by (rule upt_conv_Cons [OF lt])
  show ?case
    by (simp only: step IH upt list.map incs.simps)
qed

lemma count_incs: "count dna (int L) = incs empty_counter (map encode (windows dna L))"
  using count_loop_incs [of dna L 0 empty_counter] by (simp add: count_def windows_def comp_def)

lemma count_list_map_filter: "count_list (map f xs) y = length (filter (\<lambda>x. f x = y) xs)"
  by (induction xs) simp_all

lemma get_after_incs:
  assumes "incs empty_counter ks = Inr hc"
  shows "get hc k = (if in_range (hash k) then Inr (int (count_list ks k)) else Inl IndexOutOfRange)"
proof -
  from incs_table_inv [OF assms table_inv_empty] have "table_inv ks hc" by simp
  then show ?thesis by (simp add: get_def table_inv_def)
qed

lemma get_unseen:
  assumes "incs empty_counter ks = Inr hc" and "k \<notin> set ks"
  shows "get hc k = (if in_range (hash k) then Inr 0 else Inl IndexOutOfRange)"
  using assms(2) by (simp add: get_after_incs [OF assms(1)])

lemma encode_inject:
  assumes "length cs = length cs'" and "length cs \<le> 32"
    and "\<forall>c\<in>set cs. c \<le> 3" and "\<forall>c\<in>set cs'. c \<le> 3"
  shows "encode cs = encode cs' \<longleftrightarrow> cs = cs'"
proof
  assume "encode cs = encode cs'"
  then have "unat (encode cs) = unat (encode cs')" by simp
  then have "base4_value cs = base4_value cs'"
    using assms by (simp add: unat_encode_short)
  then show "cs = cs'" by (rule base4_value_inject [OF assms(1,3,4)])
qed simp

lemma unat_encode_less:
  assumes "\<forall>c\<in>set cs. c \<le> 3" and "length cs \<le> 31"
  shows "unat (encode cs) < 2 ^ 63"
proof -
  have "base4_value cs < 4 ^ length cs" by (rule base4_value_less [OF assms(1)])
  also have "(4::nat) ^ length cs \<le> 4 ^ 31"
    by (rule power_increasing) (use assms(2) in simp_all)
  finally have "base4_value cs < 2 ^ 63" by simp
  moreover have "unat (encode cs) = base4_value cs"
    using assms by (simp add: unat_encode_short)
  ultimately show ?thesis by simp
qed

lemma windows_codes:
  "\<forall>c\<in>set dna. c \<le> 3 \<Longrightarrow> w \<in> set (windows dna L) \<Longrightarrow> length w = L \<and> (\<forall>c\<in>set w. c \<le> 3)"
  by (auto simp add: windows_def dest: in_set_takeD in_set_dropD)

lemma count_get_below_32:
  assumes codes: "\<forall>c\<in>set dna. c \<le> 3" and L: "L \<le> 31"
    and w: "length w = L" "\<forall>c\<in>set w. c \<le> 3"
  shows "\<exists>hc. count dna (int L) = Inr hc \<and> get hc (encode w) = Inr (int (occurrences w dna))"
proof -
  have "\<forall>k\<in>set (map encode (windows dna L)). in_range (hash k)"
  proof
    fix k assume "k \<in> set (map encode (windows dna L))"
    then obtain v where "v \<in> set (windows dna L)" and k: "k = encode v" by auto
    with windows_codes [OF codes] have "length v = L" "\<forall>c\<in>set v. c \<le> 3" by simp_all
    with L have "unat (encode v) < 2 ^ 63" by (intro unat_encode_less) simp_all
    then show "in_range (hash k)" unfolding k by (rule hash_small_in_range)
  qed
  then obtain hc where hc: "incs empty_counter (map encode (windows dna L)) = Inr hc"
    using incs_Inr_iff [of empty_counter "map encode (windows dna L)"] by blast
  have "unat (encode w) < 2 ^ 63" using w L by (intro unat_encode_less) simp_all
  then have "in_range (hash (encode w))" by (rule hash_small_in_range)
  then have "get hc (encode w) = Inr (int (count_list (map encode (windows dna L)) (encode w)))"
    by (simp add: get_after_incs [OF hc])
  also have "count_list (map encode (windows dna L)) (encode w)
           = length (filter (\<lambda>v. encode v = encode w) (windows dna L))"
    by (rule count_list_map_filter)
  also have "filter (\<lambda>v. encode v = encode w) (windows dna L) = filter (\<lambda>v. v = w) (windows dna L)"
  proof (rule filter_cong [OF refl])
    fix v assume "v \<in> set (windows dna L)"
    with windows_codes [OF codes] have "length v = L" "\<forall>c\<in>set v. c \<le> 3" by simp_all
    with w L show "(encode v = encode w) = (v = w)"
      by (simp add: encode_inject)
  qed
  also have "length (filter (\<lambda>v. v = w) (windows dna L)) = occurrences w dna"
    by (simp add: windows_def occurrences_def filter_map comp_def w(1))
  finally show ?thesis using hc by (simp add: count_incs)
qed

lemma toNum_alphabet:
  "b \<in> {0x41, 0x43, 0x47, 0x54} \<Longrightarrow> toNum_byte b \<le> 3"
  by (auto simp add: toNum_byte_def)

lemma toNum_inj_alphabet: "inj_on toNum_byte {0x41, 0x43, 0x47, 0x54}"
  by (auto simp add: inj_on_def toNum_byte_def)

lemma occurrences_map:
  assumes "inj_on f (set w \<union> set s)"
  shows "occurrences (map f w) (map f s) = occurrences w s"
proof -
  have "(take (length w) (drop i (map f s)) = map f w) = (take (length w) (drop i s) = w)" for i
  proof -
    have "set (take (length w) (drop i s)) \<union> set w \<subseteq> set w \<union> set s"
      by (auto dest: in_set_takeD in_set_dropD)
    then have "inj_on f (set (take (length w) (drop i s)) \<union> set w)"
      by (rule inj_on_subset [OF assms])
    then have "(map f (take (length w) (drop i s)) = map f w) = (take (length w) (drop i s) = w)"
      by (rule inj_on_map_eq_map)
    then show ?thesis by (simp only: take_map drop_map)
  qed
  then show ?thesis by (simp add: occurrences_def)
qed

lemma count_get_text_below_32:
  assumes letters: "set letters \<subseteq> {0x41, 0x43, 0x47, 0x54}" and w: "set w \<subseteq> {0x41, 0x43, 0x47, 0x54}"
    and L: "length w = L" "L \<le> 31"
  shows "\<exists>hc. count (toNum_Replace letters) (int L) = Inr hc
              \<and> get hc (encode (toNum_Replace w)) = Inr (int (occurrences w letters))"
proof -
  have "\<forall>c\<in>set (toNum_Replace letters). c \<le> 3" "\<forall>c\<in>set (toNum_Replace w). c \<le> 3"
    using letters w by (auto simp add: toNum_Replace_def intro: toNum_alphabet)
  moreover have "length (toNum_Replace w) = L" using L by (simp add: toNum_Replace_def)
  ultimately obtain hc where "count (toNum_Replace letters) (int L) = Inr hc"
    and "get hc (encode (toNum_Replace w)) = Inr (int (occurrences (toNum_Replace w) (toNum_Replace letters)))"
    using count_get_below_32 [of "toNum_Replace letters" L "toNum_Replace w"] L by blast
  moreover have "inj_on toNum_byte (set w \<union> set letters)"
    using letters w by (intro inj_on_subset [OF toNum_inj_alphabet]) auto
  then have "occurrences (toNum_Replace w) (toNum_Replace letters) = occurrences w letters"
    unfolding toNum_Replace_def by (rule occurrences_map)
  ultimately show ?thesis by simp
qed

section \<open>The incremental key packer\<close>

lemma take_bit_encode:
  assumes "\<forall>c\<in>set v. c \<le> 3"
  shows "take_bit (2 * length v) (encode v) = encode v"
proof -
  have "base4_value v < 4 ^ length v" by (rule base4_value_less [OF assms])
  then have "base4_value v < 2 ^ (2 * length v)" by (simp add: power_mult)
  then have "take_bit (2 * length v) (base4_value v) = base4_value v"
    by (simp add: take_bit_nat_eq_self)
  then show ?thesis
    by (simp add: encode_word_of_base4 [OF assms] take_bit_of_nat)
qed

lemma take_bit_push_bit_or:
  fixes a b :: uint64
  shows "take_bit n (push_bit n a OR b) = take_bit n b"
  by (simp add: take_bit_push_bit)

lemma incremental_key_step:
  assumes "\<forall>c\<in>set (m @ [c]). c \<le> 3"
  shows "incremental_key (Suc (length m)) (encode (x # m)) c = encode (m @ [c])"
proof -
  let ?n = "2 * length (m @ [c])"
  have "incremental_key (Suc (length m)) (encode (x # m)) c = take_bit ?n (encode ((x # m) @ [c]))"
    using encode_snoc [of "x # m" c] by (simp add: incremental_key_def take_bit_eq_mask)
  also have "encode ((x # m) @ [c]) = push_bit ?n (encode [x]) OR encode (m @ [c])"
    using encode_append [of "[x]" "m @ [c]"] by simp
  also have "take_bit ?n \<dots> = take_bit ?n (encode (m @ [c]))"
    by (rule take_bit_push_bit_or)
  also have "\<dots> = encode (m @ [c])"
    by (rule take_bit_encode [OF assms])
  finally show ?thesis .
qed

lemma window_shift:
  assumes "1 \<le> i" and "i + L \<le> length dna" and "1 \<le> L"
  shows "take L (drop (i - 1) dna) = dna ! (i - 1) # take (L - 1) (drop i dna)"
    and "take L (drop i dna) = take (L - 1) (drop i dna) @ [dna ! (i + L - 1)]"
proof -
  from assms obtain j where i: "i = Suc j" by (cases i) simp_all
  from assms obtain n where L: "L = Suc n" by (cases L) simp_all
  from assms i have "j < length dna" by simp
  then have "drop j dna = dna ! j # drop (Suc j) dna" by (simp add: Cons_nth_drop_Suc)
  then show "take L (drop (i - 1) dna) = dna ! (i - 1) # take (L - 1) (drop i dna)"
    by (simp add: i L)
  from assms i L have "n < length (drop i dna)" by simp
  then have "take (Suc n) (drop i dna) = take n (drop i dna) @ [drop i dna ! n]"
    by (rule take_Suc_conv_app_nth)
  moreover from assms i L have "drop i dna ! n = dna ! (i + L - 1)" by simp
  ultimately show "take L (drop i dna) = take (L - 1) (drop i dna) @ [dna ! (i + L - 1)]"
    by (simp add: L)
qed

lemma incremental_key_window:
  assumes codes: "\<forall>c\<in>set dna. c \<le> 3" and i: "1 \<le> i" "i + L \<le> length dna"
  shows "incremental_key L (encode (take L (drop (i - 1) dna))) (dna ! (i + L - 1))
         = encode (take L (drop i dna))"
proof (cases "L = 0")
  case True
  then show ?thesis by (simp add: incremental_key_def encode_Nil)
next
  case False
  then have L: "1 \<le> L" by simp
  let ?m = "take (L - 1) (drop i dna)"
  have len: "Suc (length ?m) = L" using i L by simp
  have "\<forall>c\<in>set (take L (drop i dna)). c \<le> 3"
    using codes by (auto dest: in_set_takeD in_set_dropD)
  then have "\<forall>c\<in>set (?m @ [dna ! (i + L - 1)]). c \<le> 3"
    by (simp only: window_shift(2) [OF i L])
  from incremental_key_step [OF this, of "dna ! (i - 1)"] show ?thesis
    by (simp only: len window_shift [OF i L])
qed

lemma incremental_scan_windows:
  assumes codes: "\<forall>c\<in>set dna. c \<le> 3"
  shows "i + L \<le> length dna \<Longrightarrow>
         incremental_scan L (encode (take L (drop i dna))) (drop (i + L) dna)
         = map (\<lambda>j. encode (take L (drop j dna))) [Suc i..<length dna + 1 - L]"
proof (induction "length dna - (i + L)" arbitrary: i)
  case 0
  then have "drop (i + L) dna = []" and "[Suc i..<length dna + 1 - L] = []" by simp_all
  then show ?case by simp
next
  case (Suc n)
  then have lt: "i + L < length dna" by simp
  then have "drop (i + L) dna = dna ! (i + L) # drop (Suc i + L) dna"
    by (simp add: Cons_nth_drop_Suc)
  moreover have "incremental_key L (encode (take L (drop i dna))) (dna ! (i + L))
               = encode (take L (drop (Suc i) dna))"
    using incremental_key_window [OF codes, of "Suc i" L] lt by simp
  moreover have "incremental_scan L (encode (take L (drop (Suc i) dna))) (drop (Suc i + L) dna)
               = map (\<lambda>j. encode (take L (drop j dna))) [Suc (Suc i)..<length dna + 1 - L]"
    using Suc(2) lt by (intro Suc(1)) simp_all
  moreover have "[Suc i..<length dna + 1 - L] = Suc i # [Suc (Suc i)..<length dna + 1 - L]"
    using lt by (intro upt_conv_Cons) simp
  ultimately show ?case by (simp only: incremental_scan.simps Let_def list.map)
qed

lemma incremental_keys_windows:
  assumes "\<forall>c\<in>set dna. c \<le> 3"
  shows "incremental_keys dna L = map encode (windows dna L)"
proof (cases "length dna < L")
  case True
  then show ?thesis by (simp add: incremental_keys_def windows_def)
next
  case False
  then have le: "0 + L \<le> length dna" by simp
  then have "[0..<length dna + 1 - L] = 0 # [Suc 0..<length dna + 1 - L]"
    by (intro upt_conv_Cons) simp
  moreover note incremental_scan_windows [OF assms le]
  ultimately show ?thesis
    using False by (simp add: incremental_keys_def windows_def Let_def comp_def)
qed

lemma window_length: "w \<in> set (windows s L) \<Longrightarrow> length w = L"
  by (auto simp add: windows_def)

lemma count_incs_last_32:
  assumes "32 \<le> L"
  shows "count dna (int L) =
         incs empty_counter (map (\<lambda>w. encode (drop (L - 32) w)) (windows dna L))"
proof -
  have "map encode (windows dna L) = map (\<lambda>w. encode (drop (L - 32) w)) (windows dna L)"
  proof (rule map_cong [OF refl])
    fix w assume "w \<in> set (windows dna L)"
    then have "length w = L" by (rule window_length)
    with assms encode_last_32 [of w] show "encode w = encode (drop (L - 32) w)" by simp
  qed
  then show ?thesis by (simp only: count_incs)
qed

section \<open>The claims\<close>

subsection \<open>Evaluations used below\<close>

lemma encode_32_T: "encode (replicate 32 3) = 0xFFFFFFFFFFFFFFFF"
  by code_simp

lemma encode_C_32_A: "encode (1 # replicate 32 0) = 0"
  by code_simp

lemma encode_33_A: "encode (replicate 33 0) = 0"
  by code_simp

lemma hash_examples:
  "hash 0 = 0" "hash 5 = 5" "hash 262149 = 5" "hash 0x4E = 78"
  by (simp_all add: hash_def hashSize_def smod_int_alt_def)

lemma base4_value_Cons: "base4_value (c # cs) = unat c * 4 ^ length cs + base4_value cs"
proof (induction cs arbitrary: c rule: rev_induct)
  case Nil
  show ?case using base4_value_snoc [of "[]" c] by (simp add: base4_value_Nil)
next
  case (snoc d cs)
  have "base4_value (c # cs @ [d]) = 4 * base4_value (c # cs) + unat d"
    using base4_value_snoc [of "c # cs" d] by simp
  then show ?case by (simp add: snoc.IH base4_value_snoc)
qed

lemma base4_value_zeros: "base4_value (replicate n 0) = 0"
  by (induction n) (simp_all add: base4_value_Nil base4_value_Cons)

lemma incs_example:
  "incs empty_counter [5, 262149, 5] =
   Inr \<lparr>entries = (\<lambda>_. [])(5 := [\<lparr>key = 262149, val = 1\<rparr>, \<lparr>key = 5, val = 2\<rparr>])\<rparr>"
  by (simp add: inc_def hash_examples in_range_def hashSize_def empty_counter_def)

lemma count_AAAA:
  "count [0, 0, 0, 0] 2 = Inr \<lparr>entries = (\<lambda>_. [])(0 := [\<lparr>key = 0, val = 3\<rparr>])\<rparr>"
proof -
  have "map encode (windows [0, 0, 0, 0] 2) = [0, 0, 0]"
    by (simp add: windows_def encode_def upt_rec)
  then have "count [0, 0, 0, 0] 2 = incs empty_counter [0, 0, 0]"
    using count_incs [of "[0, 0, 0, 0]" 2] by simp
  also have "\<dots> = Inr \<lparr>entries = (\<lambda>_. [])(0 := [\<lparr>key = 0, val = 3\<rparr>])\<rparr>"
    by (simp add: inc_def hash_examples in_range_def hashSize_def empty_counter_def)
  finally show ?thesis .
qed

lemma count_short_buffer:
  assumes "length dna < L"
  shows "count dna (int L) = Inr empty_counter"
  using assms by (simp add: count_incs windows_def)

subsection \<open>C1: count followed by get is the brute-force count\<close>

text \<open>
  Claim C1 holds for every window length up to 31 (\<open>count_get_below_32\<close> above: the pass
  returns a table, and \<open>get\<close> on the key of any window of codes returns the number of
  positions at which it occurs; \<open>count_get_text_below_32\<close> says the same of a text over
  A, C, G, T and its replaced bytes; by \<open>count_short_buffer\<close> a buffer shorter than the
  window gives the empty table). At the window length 32, which the claim includes
  (\<open>2 * 32 \<le> 64\<close>), the code fails: the text of 32 letters T is read as 32 codes 3, its
  only window has the key \<open>2^64 - 1\<close>, \<open>hash\<close> turns it into the index \<open>-1\<close> and
  \<open>inc\<close> panics, although the window occurs once.
\<close>

theorem count_32_T_panics:
  "read [replicate 32 0x54] = replicate 32 3
   \<and> count (replicate 32 3) 32 = Inl IndexOutOfRange
   \<and> occurrences (replicate 32 3) (replicate 32 (3::byte)) = 1"
proof (intro conjI)
  show "read [replicate 32 0x54] = replicate 32 3"
    by (simp add: read_def toNum_Replace_def toNum_byte_def)
  have "inc empty_counter (encode (replicate 32 3)) = Inl IndexOutOfRange"
    by (simp add: inc_Inl encode_32_T hash_max_key in_range_def)
  then show "count (replicate 32 3) 32 = Inl IndexOutOfRange"
    using count_incs [of "replicate 32 3" 32] by (simp add: windows_def)
  show "occurrences (replicate 32 3) (replicate 32 (3::byte)) = 1"
    by (simp add: occurrences_def)
qed

subsection \<open>C2: the bucket index is the key modulo the table size\<close>

text \<open>
  Claim C2 says that for every key the index computed by \<open>hash\<close> is the key modulo
  \<open>hashSize\<close>, within \<open>0 .. hashSize - 1\<close>. That holds for keys below \<open>2^63\<close>
  (\<open>hash_small\<close>, \<open>hash_small_low_bits\<close>, \<open>hash_small_in_range\<close> above). For a key with
  the top bit set, \<open>int(key)\<close> is negative and the remainder is negative or zero
  (\<open>hash_large\<close>): for the key \<open>2^64 - 1\<close> the index is \<open>-1\<close>, not \<open>262143\<close>, and
  \<open>inc\<close> panics on it.
\<close>

theorem hash_max_key_out_of_range:
  "hash 0xFFFFFFFFFFFFFFFF = - 1
   \<and> \<not> in_range (hash 0xFFFFFFFFFFFFFFFF)
   \<and> unat (0xFFFFFFFFFFFFFFFF :: uint64) mod 2 ^ 18 = 262143
   \<and> inc empty_counter 0xFFFFFFFFFFFFFFFF = Inl IndexOutOfRange"
  by (simp add: hash_max_key in_range_def inc_Inl)

subsection \<open>C3: bytes outside the alphabet\<close>

text \<open>
  Claim C3 says that a byte outside A, C, G, T either fails the run or is replaced by a
  fixed sentinel, so that it never reaches a window key unchanged. The replacer does
  neither: \<open>read\<close> has no failure, the letter N (\<open>0x4E\<close>) and the letter a (\<open>0x61\<close>) are
  both left as they are, and the window N has the key \<open>0x4E\<close>.
\<close>

theorem toNum_other_byte_counterexample:
  "toNum_byte 0x4E = 0x4E \<and> toNum_byte 0x61 = 0x61 \<and> encode (read [[0x4E]]) = 0x4E"
  by (simp add: toNum_byte_def read_def toNum_Replace_def encode_def)

text \<open>
  Claim C3 as amended: every byte outside A, C, G, T is left unchanged by the replacer,
  wherever it stands in the text, and its own value becomes the key of its one-byte window.
\<close>

theorem toNum_keeps_other_bytes:
  assumes "b \<notin> {0x41, 0x43, 0x47, 0x54}"
  shows "toNum_byte b = b
       \<and> toNum_Replace (s @ [b] @ t) = toNum_Replace s @ [b] @ toNum_Replace t
       \<and> encode (read [[b]]) = ucast b"
  using assms by (simp add: toNum_byte_def read_def toNum_Replace_def encode_def)

theorem toNum_keeps_other_bytes_witness:
  "(0x4E :: byte) \<notin> {0x41, 0x43, 0x47, 0x54}
   \<and> toNum_Replace ([0x41] @ [0x4E] @ [0x54]) = [0, 0x4E, 3]
   \<and> encode (read [[0x4E]]) = 0x4E"
proof -
  have h: "(0x4E :: byte) \<notin> {0x41, 0x43, 0x47, 0x54}" by simp
  from toNum_keeps_other_bytes [OF h, of "[0x41]" "[0x54]"] h show ?thesis
    by (simp add: toNum_Replace_def toNum_byte_def)
qed

subsection \<open>C4: one entry per key, holding the number of calls\<close>

text \<open>
  Claim C4: after any sequence of calls of \<open>inc\<close> on the empty table that returned, no
  chain holds a key twice, two entries with the same key anywhere in the table are the same
  entry of the same slot (also when distinct keys share a slot), the counter of every entry
  is the number of calls of \<open>inc\<close> with its key, and the keys present are the keys passed
  to \<open>inc\<close>.
\<close>

theorem incs_one_entry_per_key:
  assumes "incs empty_counter ks = Inr hc"
  shows "(\<forall>h. distinct (map key (entries hc h)))
       \<and> (\<forall>h h' e e'. e \<in> set (entries hc h) \<and> e' \<in> set (entries hc h') \<and> key e = key e'
            \<longrightarrow> h = h' \<and> e = e')
       \<and> (\<forall>h. \<forall>e\<in>set (entries hc h). val e = int (count_list ks (key e)))
       \<and> (\<forall>k. (\<exists>h. \<exists>e\<in>set (entries hc h). key e = k) \<longleftrightarrow> k \<in> set ks)"
proof -
  from incs_table_inv [OF assms table_inv_empty] have inv: "table_inv ks hc" by simp
  then have ok: "\<And>h e. e \<in> set (entries hc h) \<Longrightarrow> hash (key e) = h"
    and dist: "\<And>h. distinct (map key (entries hc h))"
    and mem: "\<And>h e. e \<in> set (entries hc h) \<Longrightarrow> key e \<in> set ks"
    and cnt: "\<And>k. get_chain (entries hc (hash k)) k = int (count_list ks k)"
    by (simp_all add: table_inv_def bucket_ok_def)
  have val: "val e = int (count_list ks (key e))" if "e \<in> set (entries hc h)" for h e
  proof -
    from ok [OF that] have h: "hash (key e) = h" .
    from get_chain_distinct [OF dist that] have "get_chain (entries hc h) (key e) = val e" .
    with cnt [of "key e"] h show ?thesis by simp
  qed
  have uniq: "h = h' \<and> e = e'"
    if "e \<in> set (entries hc h)" "e' \<in> set (entries hc h')" "key e = key e'" for h h' e e'
  proof -
    from that ok [of e h] ok [of e' h'] have h: "h = h'" by simp
    from val [OF that(1)] val [OF that(2)] that(3) have "val e = val e'" by simp
    with that(3) have "e = e'" by simp
    with h show ?thesis by simp
  qed
  have present: "(\<exists>h. \<exists>e\<in>set (entries hc h). key e = k) \<longleftrightarrow> k \<in> set ks" for k
  proof
    assume "\<exists>h. \<exists>e\<in>set (entries hc h). key e = k"
    then show "k \<in> set ks" using mem by blast
  next
    assume "k \<in> set ks"
    then have "count_list ks k \<noteq> 0" by (simp add: count_list_0_iff)
    then have "get_chain (entries hc (hash k)) k \<noteq> 0" using cnt [of k] by simp
    then have "k \<in> key ` set (entries hc (hash k))" using get_chain_absent by blast
    then show "\<exists>h. \<exists>e\<in>set (entries hc h). key e = k" by blast
  qed
  from dist val uniq present show ?thesis by blast
qed

theorem incs_one_entry_per_key_witness:
  "incs empty_counter [5, 262149, 5] =
     Inr \<lparr>entries = (\<lambda>_. [])(5 := [\<lparr>key = 262149, val = 1\<rparr>, \<lparr>key = 5, val = 2\<rparr>])\<rparr>
   \<and> distinct (map key [\<lparr>key = 262149, val = 1\<rparr>, \<lparr>key = 5, val = 2\<rparr>])
   \<and> val \<lparr>key = 5, val = 2\<rparr> = int (count_list [5, 262149, 5 :: uint64] 5)
   \<and> val \<lparr>key = 262149, val = 1\<rparr> = int (count_list [5, 262149, 5 :: uint64] 262149)"
proof -
  let ?hc = "\<lparr>entries = (\<lambda>_. [])(5 := [\<lparr>key = 262149, val = 1\<rparr>, \<lparr>key = 5, val = 2::int\<rparr>])\<rparr>"
  note facts = incs_one_entry_per_key [OF incs_example]
  from facts have "distinct (map key (entries ?hc 5))" by blast
  moreover from facts have "\<forall>e\<in>set (entries ?hc 5). val e = int (count_list [5, 262149, 5] (key e))"
    by blast
  ultimately show ?thesis using incs_example by simp
qed

subsection \<open>C5: the incremental key and the key computed from scratch\<close>

text \<open>
  Claim C5: on a buffer of codes 0 to 3, for every window position \<open>i \<ge> 1\<close> the
  incremental update of the key of the window at \<open>i - 1\<close> with the code entering at
  \<open>i + L - 1\<close> is the key \<open>encode\<close> computes from scratch for the window at \<open>i\<close>; the
  key sequence of the incremental scan is the key sequence of the windows, and \<open>count\<close>,
  which recomputes every key, returns what the calls of \<open>inc\<close> on the incremental keys
  return.
\<close>

theorem incremental_key_refines_encode:
  assumes "\<forall>c\<in>set dna. c \<le> 3"
  shows "(\<forall>i. 1 \<le> i \<and> i + L \<le> length dna \<longrightarrow>
            incremental_key L (encode (take L (drop (i - 1) dna))) (dna ! (i + L - 1))
            = encode (take L (drop i dna)))
       \<and> incremental_keys dna L = map encode (windows dna L)
       \<and> count dna (int L) = incs empty_counter (incremental_keys dna L)"
  using incremental_key_window [OF assms] incremental_keys_windows [OF assms]
  by (simp add: count_incs)

theorem incremental_key_refines_encode_witness:
  "incremental_key 2 (encode (take 2 (drop (1 - 1) [0, 1, 2, 3, 0]))) ([0, 1, 2, 3, 0] ! (1 + 2 - 1))
     = encode (take 2 (drop 1 [0, 1, 2, 3, 0]))
   \<and> incremental_keys [0, 1, 2, 3, 0] 2 = [1, 6, 11, 12]
   \<and> map encode (windows [0, 1, 2, 3, 0] 2) = [1, 6, 11, 12]"
proof -
  have h: "\<forall>c\<in>set [0, 1, 2, 3, 0 :: byte]. c \<le> 3" by simp
  have w: "map encode (windows [0, 1, 2, 3, 0] 2) = [1, 6, 11, 12]"
    by (simp add: windows_def encode_def upt_rec)
  note facts = incremental_key_refines_encode [OF h, of 2]
  from facts [THEN conjunct1, rule_format, of 1]
  have "incremental_key 2 (encode (take 2 (drop (1 - 1) [0, 1, 2, 3, 0])))
       ([0, 1, 2, 3, 0] ! (1 + 2 - 1)) = encode (take 2 (drop 1 [0, 1, 2, 3, 0]))"
    by simp
  moreover from facts w have "incremental_keys [0, 1, 2, 3, 0] 2 = [1, 6, 11, 12]" by simp
  ultimately show ?thesis using w by simp
qed

subsection \<open>C6: encode as a base-4 number\<close>

text \<open>
  Claim C6 says that \<open>encode\<close> of a sequence of codes is the integer with these base-4
  digits, for any length, and that it is therefore injective up to length 32. The first
  part fails beyond 32 codes, where the key has only 64 bits: the 33 codes 1, 0, ..., 0
  have the value \<open>4^32 = 2^64\<close> and the key 0.
\<close>

theorem encode_33_codes_counterexample:
  "encode (1 # replicate 32 0) = 0 \<and> base4_value (1 # replicate 32 0) = 2 ^ 64
   \<and> unat (encode (1 # replicate 32 0)) \<noteq> base4_value (1 # replicate 32 0)"
  by (simp add: encode_C_32_A base4_value_Cons base4_value_zeros)

text \<open>
  Claim C6 as amended: \<open>encode\<close> of a sequence of codes 0 to 3 is the base-4 value of the
  sequence modulo \<open>2^64\<close>; for at most 32 codes it is the base-4 value itself, and two
  sequences of codes of the same length of at most 32 have the same key if and only if
  they are equal.
\<close>

theorem encode_base4_value:
  assumes "\<forall>c\<in>set cs. c \<le> 3"
  shows "unat (encode cs) = base4_value cs mod 2 ^ 64
       \<and> (length cs \<le> 32 \<longrightarrow>
            unat (encode cs) = base4_value cs
            \<and> (\<forall>cs'. length cs' = length cs \<and> (\<forall>c\<in>set cs'. c \<le> 3)
                  \<longrightarrow> (encode cs' = encode cs \<longleftrightarrow> cs' = cs)))"
proof (intro conjI impI allI)
  show "unat (encode cs) = base4_value cs mod 2 ^ 64" by (rule unat_encode [OF assms])
next
  assume "length cs \<le> 32"
  then show "unat (encode cs) = base4_value cs" by (rule unat_encode_short [OF assms])
next
  fix cs' :: "byte list"
  assume len: "length cs \<le> 32" and "length cs' = length cs \<and> (\<forall>c\<in>set cs'. c \<le> 3)"
  then have "length cs' = length cs" "length cs' \<le> 32" "\<forall>c\<in>set cs'. c \<le> 3" by simp_all
  then show "encode cs' = encode cs \<longleftrightarrow> cs' = cs"
    using assms by (intro encode_inject) simp_all
qed

theorem encode_base4_value_witness:
  "unat (encode [2, 2, 3, 0]) = 2 * 4 ^ 3 + 2 * 4 ^ 2 + 3 * 4 ^ 1 + 0 * 4 ^ 0
   \<and> base4_value [2, 2, 3, 0] = 172
   \<and> encode [2, 3, 2, 0] \<noteq> encode [2, 2, 3, 0]"
proof -
  have h: "\<forall>c\<in>set [2, 2, 3, 0 :: byte]. c \<le> 3" by simp
  have v: "base4_value [2, 2, 3, 0] = 172"
    by (simp add: base4_value_Cons base4_value_Nil)
  note facts = encode_base4_value [OF h]
  from facts v have "unat (encode [2, 2, 3, 0]) = 172" by simp
  moreover from facts have "encode [2, 3, 2, 0] = encode [2, 2, 3, 0] \<longleftrightarrow> [2, 3, 2, 0] = [2, 2, 3, 0 :: byte]"
    by simp
  ultimately show ?thesis using v by simp
qed

subsection \<open>C7: get on a key that was never counted\<close>

text \<open>
  Claim C7 says that \<open>get\<close> returns 0, without an error, for every key that \<open>inc\<close> never
  saw. That holds whenever the index of the key is in range (\<open>get_unseen\<close> above). On the
  empty table the key \<open>2^64 - 1\<close>, the key of the text of 32 letters T, makes \<open>get\<close>
  panic with the index \<open>-1\<close>.
\<close>

theorem get_unseen_key_panics:
  "encode (toNum_Replace (replicate 32 0x54)) = 0xFFFFFFFFFFFFFFFF
   \<and> get empty_counter 0xFFFFFFFFFFFFFFFF = Inl IndexOutOfRange"
  by (simp add: toNum_Replace_def toNum_byte_def encode_32_T get_def hash_max_key in_range_def)

subsection \<open>C8: window lengths beyond 32\<close>

text \<open>
  Claim C8 says that a window length with \<open>2 * L > 64\<close> is refused before the scan
  begins. \<open>count\<close> has no such check: with the length 33 on the 33 codes 1, 0, ..., 0 it
  returns a table, in which the window is counted under the key 0, the key of the window
  of 33 codes 0 that does not occur in the buffer.
\<close>

theorem count_length_33_counterexample:
  "(case count (1 # replicate 32 0) 33 of
      Inl e \<Rightarrow> Inl e
    | Inr hc \<Rightarrow> get hc (encode (replicate 33 0))) = Inr 1
   \<and> occurrences (replicate 33 0) (1 # replicate 32 (0::byte)) = 0"
proof -
  have "windows (1 # replicate 32 (0::byte)) 33 = [1 # replicate 32 0]"
    by (simp add: windows_def)
  then have "count (1 # replicate 32 0) 33 = incs empty_counter [0]"
    using count_incs [of "1 # replicate 32 0" 33] by (simp add: encode_C_32_A)
  also have "\<dots> = Inr \<lparr>entries = (\<lambda>_. [])(0 := [\<lparr>key = 0, val = 1\<rparr>])\<rparr>"
    by (simp add: inc_def hash_examples in_range_def hashSize_def empty_counter_def)
  finally have "count (1 # replicate 32 0) 33 = Inr \<lparr>entries = (\<lambda>_. [])(0 := [\<lparr>key = 0, val = 1\<rparr>])\<rparr>" .
  moreover have "replicate 33 (0::byte) = 0 # replicate 32 0"
    using replicate_Suc [of 32 "0::byte"] by simp
  then have "occurrences (replicate 33 0) (1 # replicate 32 (0::byte)) = 0"
    by (simp add: occurrences_def)
  ultimately show ?thesis
    by (simp add: encode_33_A get_def hash_examples in_range_def hashSize_def)
qed

text \<open>
  Claim C8 as amended: for a window length above 32 the pass makes no check of the length.
  It scans the windows as for any other length and calls \<open>inc\<close> once per window with a
  key that depends on the last 32 bytes of the window only, and it returns a table whenever
  the index of every window's key is in range.
\<close>

theorem count_long_windows:
  assumes "32 < L"
  shows "count dna (int L) =
           incs empty_counter (map (\<lambda>w. encode (drop (L - 32) w)) (windows dna L))
       \<and> ((\<forall>w\<in>set (windows dna L). in_range (hash (encode w)))
            \<longrightarrow> (\<exists>hc. count dna (int L) = Inr hc))"
proof
  from assms have "32 \<le> L" by simp
  then show "count dna (int L) =
      incs empty_counter (map (\<lambda>w. encode (drop (L - 32) w)) (windows dna L))"
    by (rule count_incs_last_32)
  show "(\<forall>w\<in>set (windows dna L). in_range (hash (encode w))) \<longrightarrow> (\<exists>hc. count dna (int L) = Inr hc)"
    using incs_Inr_iff [of empty_counter "map encode (windows dna L)"]
    by (simp add: count_incs)
qed

theorem count_long_windows_witness:
  "(32::nat) < 33
   \<and> count (1 # replicate 32 0) 33 = incs empty_counter [encode (replicate 32 0)]
   \<and> count (1 # replicate 32 0) 33 = Inr \<lparr>entries = (\<lambda>_. [])(0 := [\<lparr>key = 0, val = 1\<rparr>])\<rparr>"
proof -
  have h: "(32::nat) < 33" by simp
  have w: "windows (1 # replicate 32 (0::byte)) 33 = [1 # replicate 32 0]"
    by (simp add: windows_def)
  have z: "encode (replicate 32 0) = 0" by code_simp
  from count_long_windows [OF h, of "1 # replicate 32 0"] w
  have "count (1 # replicate 32 0) 33 = incs empty_counter [encode (replicate 32 0)]"
    by simp
  moreover have "incs empty_counter [0] = Inr \<lparr>entries = (\<lambda>_. [])(0 := [\<lparr>key = 0, val = 1\<rparr>])\<rparr>"
    by (simp add: inc_def hash_examples in_range_def hashSize_def empty_counter_def)
  ultimately show ?thesis by (simp add: z)
qed

subsection \<open>C10: what a call of inc leaves unchanged\<close>

text \<open>
  Claim C10: a call \<open>inc\<close> of the key \<open>k\<close> that returns leaves, in every slot, the entries
  with other keys as they are and in their order; the keys of every chain stay as they
  are, except that the chain of the slot of \<open>k\<close> gets the new entry of \<open>k\<close> with the
  counter 1 at its head when it holds no entry for \<open>k\<close>. When every entry sits in the slot
  of its key, as in every table built by \<open>inc\<close> (\<open>incs_bucket_ok\<close> above), a new entry is
  thus created only when the whole table holds no entry for \<open>k\<close>.
\<close>

theorem inc_frame:
  assumes "inc hc k = Inr hc'"
  shows "(\<forall>h. filter (\<lambda>e. key e \<noteq> k) (entries hc' h) = filter (\<lambda>e. key e \<noteq> k) (entries hc h))
       \<and> (\<forall>h. map key (entries hc' h) = map key (entries hc h)
              \<or> (h = hash k \<and> entries hc' h = \<lparr>key = k, val = 1\<rparr> # entries hc h
                  \<and> k \<notin> key ` set (entries hc h)))
       \<and> (bucket_ok hc \<longrightarrow> (\<exists>h. map key (entries hc' h) \<noteq> map key (entries hc h))
              \<longrightarrow> (\<forall>h. k \<notin> key ` set (entries hc h)))"
proof (intro conjI allI impI)
  fix h
  show "filter (\<lambda>e. key e \<noteq> k) (entries hc' h) = filter (\<lambda>e. key e \<noteq> k) (entries hc h)"
    by (rule inc_others [OF assms])
next
  fix h
  show "map key (entries hc' h) = map key (entries hc h)
        \<or> (h = hash k \<and> entries hc' h = \<lparr>key = k, val = 1\<rparr> # entries hc h
            \<and> k \<notin> key ` set (entries hc h))"
  proof (cases "h = hash k \<and> k \<notin> key ` set (entries hc h)")
    case False
    then show ?thesis using inc_keys [OF assms, of h] by auto
  next
    case True
    then have "inc_chain (entries hc (hash k)) k = None" by (auto simp add: inc_chain_None)
    from inc_same_bucket_new [OF assms this] True show ?thesis by auto
  qed
next
  fix h
  assume ok: "bucket_ok hc" and new: "\<exists>h. map key (entries hc' h) \<noteq> map key (entries hc h)"
  from new obtain h0 where "map key (entries hc' h0) \<noteq> map key (entries hc h0)" ..
  then have absent: "k \<notin> key ` set (entries hc (hash k))"
    using inc_keys [OF assms, of h0] by (auto split: if_splits)
  show "k \<notin> key ` set (entries hc h)"
  proof
    assume "k \<in> key ` set (entries hc h)"
    then obtain e where e: "e \<in> set (entries hc h)" "key e = k" by auto
    with ok have "hash k = h" by (auto simp add: bucket_ok_def)
    with e absent show False by auto
  qed
qed

theorem inc_frame_witness:
  "inc \<lparr>entries = (\<lambda>_. [])(5 := [\<lparr>key = 5, val = 1\<rparr>])\<rparr> 262149 =
     Inr \<lparr>entries = (\<lambda>_. [])(5 := [\<lparr>key = 262149, val = 1\<rparr>, \<lparr>key = 5, val = 1\<rparr>])\<rparr>
   \<and> filter (\<lambda>e. key e \<noteq> 262149) [\<lparr>key = 262149, val = 1\<rparr>, \<lparr>key = 5, val = 1\<rparr>]
       = filter (\<lambda>e. key e \<noteq> 262149) [\<lparr>key = 5, val = 1\<rparr>]
   \<and> bucket_ok \<lparr>entries = (\<lambda>_. [])(5 := [\<lparr>key = 5, val = 1\<rparr>])\<rparr>
   \<and> (262149 :: uint64) \<notin> key ` set [\<lparr>key = 5, val = 1::int\<rparr>]"
proof -
  let ?hc = "\<lparr>entries = (\<lambda>_. [])(5 := [\<lparr>key = 5, val = 1::int\<rparr>])\<rparr>"
  let ?hc' = "\<lparr>entries = (\<lambda>_. [])(5 := [\<lparr>key = 262149, val = 1\<rparr>, \<lparr>key = 5, val = 1::int\<rparr>])\<rparr>"
  have step: "inc ?hc 262149 = Inr ?hc'"
    by (simp add: inc_def hash_examples in_range_def hashSize_def)
  have ok: "bucket_ok ?hc"
    by (simp add: bucket_ok_def hash_examples)
  note facts = inc_frame [OF step]
  from facts have "filter (\<lambda>e. key e \<noteq> 262149) (entries ?hc' 5)
      = filter (\<lambda>e. key e \<noteq> 262149) (entries ?hc 5)" by blast
  moreover have "map key (entries ?hc' 5) \<noteq> map key (entries ?hc 5)" by simp
  with facts ok have "262149 \<notin> key ` set (entries ?hc 5)" by blast
  ultimately show ?thesis using step ok by simp
qed

end
